theory Spec2Isabelle
  imports Main "HOL-Library.Word" "HOL-Library.AList"
begin

section \<open>Time and counters\<close>

text \<open>
  A \<^verbatim>\<open>time.Time\<close> obtained from \<^verbatim>\<open>time.Now()\<close> carries a monotonic clock reading, and
  \<^verbatim>\<open>Compare\<close>, \<^verbatim>\<open>Sub\<close> and \<^verbatim>\<open>Since\<close> work on that reading. A time is modelled as the
  reading in nanoseconds, a \<^verbatim>\<open>time.Duration\<close> as a number of nanoseconds. Every call of
  \<^verbatim>\<open>time.Now()\<close> in the source is a parameter of the model: the caller of an operation
  supplies what the clock shows at that call.
\<close>

type_synonym Time = int
type_synonym Duration = int

definition maxDuration :: Duration where
  "maxDuration = 2 ^ 63 - 1"

definition minDuration :: Duration where
  "minDuration = - (2 ^ 63)"

text \<open>\<^verbatim>\<open>t.Sub(u)\<close>: the difference, saturated at the ends of the \<^verbatim>\<open>int64\<close> range.\<close>

definition time_Sub :: "Time \<Rightarrow> Time \<Rightarrow> Duration" where
  "time_Sub t u =
     (let d = t - u
      in if maxDuration < d then maxDuration
         else if d < minDuration then minDuration
         else d)"

text \<open>\<^verbatim>\<open>time.Since(t)\<close> is \<^verbatim>\<open>time.Now().Sub(t)\<close>; \<open>now\<close> is the clock reading of that call.\<close>

definition time_Since :: "Time \<Rightarrow> Time \<Rightarrow> Duration" where
  "time_Since now t = time_Sub now t"

text \<open>\<^verbatim>\<open>t.Compare(u)\<close>: \<open>-1\<close>, \<open>0\<close> or \<open>1\<close>.\<close>

definition time_Compare :: "Time \<Rightarrow> Time \<Rightarrow> int" where
  "time_Compare t u = (if t < u then - 1 else if u < t then 1 else 0)"

text \<open>The statistics are \<^verbatim>\<open>int64\<close> fields; \<^verbatim>\<open>atomic.AddInt64\<close> wraps around.\<close>

type_synonym int64 = "64 word"

definition atomic_AddInt64 :: "int64 \<Rightarrow> int64 \<Rightarrow> int64" where
  "atomic_AddInt64 x delta = x + delta"

section \<open>Data model\<close>

record 'v CacheValue =
  Value :: 'v
  TTL :: Duration
  LastAccess :: Time

record CacheStats =
  Hits :: int64
  Misses :: int64
  Evictions :: int64
  Size :: int64

text \<open>
  The Go map \<^verbatim>\<open>map[string]*CacheValue\<close> is an association list with one pair per key;
  \<^verbatim>\<open>len(cm.Cache)\<close> is its length. The mutex \<^verbatim>\<open>mu\<close> is not part of the sequential model.
\<close>

type_synonym 'v entries = "(string \<times> 'v CacheValue) list"

record 'v CacheManager =
  Cache :: "'v entries"
  Capacity :: int
  DefaultTTL :: Duration
  CleanupTick :: Duration
  Stats :: CacheStats

definition wf_cache :: "'v entries \<Rightarrow> bool" where
  "wf_cache c = distinct (map fst c)"

text \<open>
  A \<^verbatim>\<open>for k, v := range cm.Cache\<close> loop visits every key once, in an order Go leaves
  unspecified. The order is a parameter of each operation that has such a loop.
\<close>

definition range_order :: "string list \<Rightarrow> 'v entries \<Rightarrow> bool" where
  "range_order ord c = (distinct ord \<and> set ord = set (map fst c))"

definition expired :: "Time \<Rightarrow> 'v CacheValue \<Rightarrow> bool" where
  "expired now v = (TTL v < time_Sub now (LastAccess v))"

section \<open>Operations\<close>

definition NewCacheManager :: "int \<Rightarrow> Duration \<Rightarrow> Duration \<Rightarrow> 'v CacheManager" where
  "NewCacheManager maxSize defaultTTL cleanupTick =
     \<lparr>Cache = [], Capacity = maxSize, DefaultTTL = defaultTTL, CleanupTick = cleanupTick,
      Stats = \<lparr>Hits = 0, Misses = 0, Evictions = 0, Size = 0\<rparr>\<rparr>"

text \<open>The scan of \<^verbatim>\<open>lru\<close>: the pair is \<^verbatim>\<open>(oldestTime, oldestKey)\<close>.\<close>

fun lru_scan :: "'v entries \<Rightarrow> string list \<Rightarrow> Time \<times> string \<Rightarrow> Time \<times> string" where
  "lru_scan c [] acc = acc"
| "lru_scan c (k # ks) (oldestTime, oldestKey) =
     (case map_of c k of
        None \<Rightarrow> lru_scan c ks (oldestTime, oldestKey)
      | Some v \<Rightarrow>
          if time_Compare (LastAccess v) oldestTime = - 1
          then lru_scan c ks (LastAccess v, k)
          else lru_scan c ks (oldestTime, oldestKey))"

definition lru :: "'v CacheManager \<Rightarrow> string list \<Rightarrow> Time \<Rightarrow> 'v CacheManager" where
  "lru cm ord now =
     (let oldestKey = snd (lru_scan (Cache cm) ord (now, ''''))
      in cm\<lparr>Cache := AList.delete oldestKey (Cache cm),
            Stats := (Stats cm)\<lparr>Evictions := atomic_AddInt64 (Evictions (Stats cm)) 1\<rparr>\<rparr>)"

text \<open>
  \<^verbatim>\<open>SetWithTTL\<close>: \<open>ord\<close> and \<open>now_lru\<close> are the iteration order and the clock reading inside
  \<^verbatim>\<open>lru\<close> (used only when it is called), \<open>now\<close> is the reading stored in the new entry.
\<close>

definition SetWithTTL ::
  "'v CacheManager \<Rightarrow> string \<Rightarrow> 'v \<Rightarrow> Duration \<Rightarrow> string list \<Rightarrow> Time \<Rightarrow> Time \<Rightarrow> 'v CacheManager" where
  "SetWithTTL cm key val ttl ord now_lru now =
     (let ok = (map_of (Cache cm) key \<noteq> None);
          cm1 = (if \<not> ok \<and> int (length (Cache cm)) = Capacity cm then lru cm ord now_lru else cm)
      in cm1\<lparr>Cache := AList.update key \<lparr>Value = val, TTL = ttl, LastAccess = now\<rparr> (Cache cm1)\<rparr>)"

definition Set ::
  "'v CacheManager \<Rightarrow> string \<Rightarrow> 'v \<Rightarrow> string list \<Rightarrow> Time \<Rightarrow> Time \<Rightarrow> 'v CacheManager" where
  "Set cm key val ord now_lru now =
     (let ok = (map_of (Cache cm) key \<noteq> None);
          cm1 = (if \<not> ok \<and> int (length (Cache cm)) = Capacity cm then lru cm ord now_lru else cm)
      in cm1\<lparr>Cache := AList.update key \<lparr>Value = val, TTL = DefaultTTL cm, LastAccess = now\<rparr> (Cache cm1)\<rparr>)"

text \<open>\<^verbatim>\<open>Get\<close> returns the pair \<^verbatim>\<open>(value, found)\<close>, \<open>None\<close> for \<^verbatim>\<open>nil\<close>, and the manager.\<close>

definition Get :: "'v CacheManager \<Rightarrow> string \<Rightarrow> Time \<Rightarrow> ('v option \<times> bool) \<times> 'v CacheManager" where
  "Get cm key now =
     (case map_of (Cache cm) key of
        None \<Rightarrow>
          ((None, False), cm\<lparr>Stats := (Stats cm)\<lparr>Misses := atomic_AddInt64 (Misses (Stats cm)) 1\<rparr>\<rparr>)
      | Some v \<Rightarrow>
          if TTL v < time_Since now (LastAccess v)
          then ((None, False), cm\<lparr>Stats := (Stats cm)\<lparr>Misses := atomic_AddInt64 (Misses (Stats cm)) 1\<rparr>\<rparr>)
          else ((Some (Value v), True), cm\<lparr>Stats := (Stats cm)\<lparr>Hits := atomic_AddInt64 (Hits (Stats cm)) 1\<rparr>\<rparr>))"

definition Delete :: "'v CacheManager \<Rightarrow> string \<Rightarrow> 'v CacheManager" where
  "Delete cm key =
     (case map_of (Cache cm) key of
        None \<Rightarrow> cm
      | Some _ \<Rightarrow> cm\<lparr>Cache := AList.delete key (Cache cm)\<rparr>)"

definition Clear :: "'v CacheManager \<Rightarrow> 'v CacheManager" where
  "Clear cm = cm\<lparr>Cache := []\<rparr>"

text \<open>
  The loop of \<^verbatim>\<open>ClearByTTL\<close>. Deleting the current key inside a \<^verbatim>\<open>range\<close> loop is allowed
  in Go; a key that is gone when its turn comes is not produced.
\<close>

fun ClearByTTL_loop :: "'v CacheManager \<Rightarrow> string list \<Rightarrow> Time \<Rightarrow> 'v CacheManager" where
  "ClearByTTL_loop cm [] now = cm"
| "ClearByTTL_loop cm (k # ks) now =
     (case map_of (Cache cm) k of
        None \<Rightarrow> ClearByTTL_loop cm ks now
      | Some v \<Rightarrow>
          if TTL v < time_Sub now (LastAccess v)
          then ClearByTTL_loop
                 (Delete (cm\<lparr>Stats := (Stats cm)\<lparr>Evictions := atomic_AddInt64 (Evictions (Stats cm)) 1\<rparr>\<rparr>) k)
                 ks now
          else ClearByTTL_loop cm ks now)"

definition ClearByTTL :: "'v CacheManager \<Rightarrow> string list \<Rightarrow> Time \<Rightarrow> 'v CacheManager" where
  "ClearByTTL cm ord now = ClearByTTL_loop cm ord now"

text \<open>\<^verbatim>\<open>GetStats\<close> stores the constant 1 in \<^verbatim>\<open>Size\<close> and returns a copy of the statistics.\<close>

definition GetStats :: "'v CacheManager \<Rightarrow> CacheStats \<times> 'v CacheManager" where
  "GetStats cm =
     (let cm1 = cm\<lparr>Stats := (Stats cm)\<lparr>Size := 1\<rparr>\<rparr>
      in (Stats cm1, cm1))"

section \<open>Sequences of operations\<close>

datatype 'v op =
    OpSet string 'v "string list" Time Time
  | OpSetWithTTL string 'v Duration "string list" Time Time
  | OpGet string Time
  | OpDelete string
  | OpClear
  | OpClearByTTL "string list" Time
  | OpGetStats

fun step :: "'v CacheManager \<Rightarrow> 'v op \<Rightarrow> 'v CacheManager" where
  "step cm (OpSet key val ord now_lru now) = Set cm key val ord now_lru now"
| "step cm (OpSetWithTTL key val ttl ord now_lru now) = SetWithTTL cm key val ttl ord now_lru now"
| "step cm (OpGet key now) = snd (Get cm key now)"
| "step cm (OpDelete key) = Delete cm key"
| "step cm OpClear = Clear cm"
| "step cm (OpClearByTTL ord now) = ClearByTTL cm ord now"
| "step cm OpGetStats = snd (GetStats cm)"

definition run :: "'v CacheManager \<Rightarrow> 'v op list \<Rightarrow> 'v CacheManager" where
  "run cm ops = foldl step cm ops"

section \<open>Counters as signed 64-bit values\<close>

text \<open>
  The counters are read as signed values (\<open>sint\<close>). \<open>headroom\<close> says that no counter can
  wrap around during the next operation: hits and misses grow by at most one, evictions by
  at most one per entry (\<^verbatim>\<open>ClearByTTL\<close>) or by one (\<^verbatim>\<open>lru\<close>). \<open>no_overflow\<close> asks for it
  before every operation of a sequence.
\<close>

definition max_int64 :: int where
  "max_int64 = 2 ^ 63 - 1"

definition counters_nonneg :: "CacheStats \<Rightarrow> bool" where
  "counters_nonneg s = (0 \<le> sint (Hits s) \<and> 0 \<le> sint (Misses s) \<and> 0 \<le> sint (Evictions s))"

definition counters_le :: "CacheStats \<Rightarrow> CacheStats \<Rightarrow> bool" where
  "counters_le s t =
     (sint (Hits s) \<le> sint (Hits t) \<and> sint (Misses s) \<le> sint (Misses t) \<and>
      sint (Evictions s) \<le> sint (Evictions t))"

definition headroom :: "'v CacheManager \<Rightarrow> bool" where
  "headroom cm =
     (sint (Hits (Stats cm)) < max_int64 \<and> sint (Misses (Stats cm)) < max_int64 \<and>
      sint (Evictions (Stats cm)) + int (length (Cache cm)) < max_int64)"

fun no_overflow :: "'v CacheManager \<Rightarrow> 'v op list \<Rightarrow> bool" where
  "no_overflow cm [] = True"
| "no_overflow cm (a # as) = (headroom cm \<and> no_overflow (step cm a) as)"

section \<open>Clock readings ahead of the stored entries\<close>

text \<open>
  \<open>older c t\<close>: every entry of \<open>c\<close> was last accessed strictly before \<open>t\<close>. \<open>strict_run\<close>
  asks, for each \<^verbatim>\<open>Set\<close> and \<^verbatim>\<open>SetWithTTL\<close> of a sequence, that the reading \<^verbatim>\<open>lru\<close> would
  take is ahead of the store in this sense and that the loop order lists every key once.
\<close>

definition older :: "'v entries \<Rightarrow> Time \<Rightarrow> bool" where
  "older c t = list_all (\<lambda>p. LastAccess (snd p) < t) c"

fun op_ok :: "'v CacheManager \<Rightarrow> 'v op \<Rightarrow> bool" where
  "op_ok cm (OpSet key val ord now_lru now) = (range_order ord (Cache cm) \<and> older (Cache cm) now_lru)"
| "op_ok cm (OpSetWithTTL key val ttl ord now_lru now) =
     (range_order ord (Cache cm) \<and> older (Cache cm) now_lru)"
| "op_ok cm _ = True"

fun strict_run :: "'v CacheManager \<Rightarrow> 'v op list \<Rightarrow> bool" where
  "strict_run cm [] = True"
| "strict_run cm (a # as) = (op_ok cm a \<and> strict_run (step cm a) as)"

section \<open>Clear and Delete\<close>

text \<open>
  C8. \<^verbatim>\<open>Clear()\<close> replaces the whole entry set with the empty map and leaves the
  counters hits, misses and evictions as they were.
\<close>

theorem Clear_empties_and_keeps_stats:
  "Cache (Clear cm) = [] \<and>
   Hits (Stats (Clear cm)) = Hits (Stats cm) \<and>
   Misses (Stats (Clear cm)) = Misses (Stats cm) \<and>
   Evictions (Stats (Clear cm)) = Evictions (Stats cm)"
  by (simp add: Clear_def)

text \<open>
  C10. \<^verbatim>\<open>Delete(k)\<close>, whether \<open>k\<close> is present or not, leaves hits, misses and evictions
  unchanged: a deleted entry is not counted as an eviction.
\<close>

theorem Delete_keeps_stats:
  "Hits (Stats (Delete cm k)) = Hits (Stats cm) \<and>
   Misses (Stats (Delete cm k)) = Misses (Stats cm) \<and>
   Evictions (Stats (Delete cm k)) = Evictions (Stats cm)"
  by (simp add: Delete_def split: option.split)

section \<open>Get\<close>

lemmas ops_defs = NewCacheManager_def Set_def SetWithTTL_def Get_def Delete_def Clear_def
  ClearByTTL_def GetStats_def lru_def run_def time_Since_def time_Sub_def time_Compare_def
  maxDuration_def minDuration_def atomic_AddInt64_def Let_def

lemma Get_keeps_Cache: "Cache (snd (Get cm k now)) = Cache cm"
  by (simp add: Get_def split: option.split)

text \<open>
  C5. If the key is absent, or its entry has \<open>now - lastAccess > ttl\<close> (the difference as
  \<^verbatim>\<open>time.Since\<close> computes it), \<^verbatim>\<open>Get\<close> returns \<^verbatim>\<open>(nil, false)\<close>, adds one to misses and
  leaves the entry map as it was: the expired entry stays in the map.
\<close>

theorem Get_miss:
  assumes "map_of (Cache cm) k = None \<or>
           (\<exists>v. map_of (Cache cm) k = Some v \<and> TTL v < time_Sub now (LastAccess v))"
  shows "fst (Get cm k now) = (None, False) \<and>
         Misses (Stats (snd (Get cm k now))) = Misses (Stats cm) + 1 \<and>
         Hits (Stats (snd (Get cm k now))) = Hits (Stats cm) \<and>
         Evictions (Stats (snd (Get cm k now))) = Evictions (Stats cm) \<and>
         Cache (snd (Get cm k now)) = Cache cm"
  using assms by (auto simp: Get_def time_Since_def atomic_AddInt64_def split: option.split)

text \<open>An entry stored with a TTL of 5 at time 0 and never read is a miss at time 6.\<close>

theorem Get_miss_witness:
  "fst (Get (SetWithTTL (NewCacheManager 2 10 1) ''a'' (7::nat) 5 [] 0 0) ''a'' 6) = (None, False) \<and>
   Misses (Stats (snd (Get (SetWithTTL (NewCacheManager 2 10 1) ''a'' (7::nat) 5 [] 0 0) ''a'' 6))) = 1 \<and>
   map fst (Cache (snd (Get (SetWithTTL (NewCacheManager 2 10 1) ''a'' (7::nat) 5 [] 0 0) ''a'' 6))) = [''a'']"
proof -
  let ?cm = "SetWithTTL (NewCacheManager 2 10 1) ''a'' (7::nat) 5 [] 0 0"
  have c: "Cache ?cm = [(''a'', \<lparr>Value = 7, TTL = 5, LastAccess = 0\<rparr>)]"
    by (simp add: SetWithTTL_def NewCacheManager_def)
  have m: "Misses (Stats ?cm) = 0"
    by (simp add: SetWithTTL_def NewCacheManager_def)
  have h: "map_of (Cache ?cm) ''a'' = None \<or>
           (\<exists>v. map_of (Cache ?cm) ''a'' = Some v \<and> TTL v < time_Sub 6 (LastAccess v))"
    by (simp add: c time_Sub_def maxDuration_def minDuration_def)
  show ?thesis
    using Get_miss [OF h] by (simp add: c m)
qed

text \<open>
  C1. A successful \<^verbatim>\<open>Get\<close> returns \<^verbatim>\<open>(value, true)\<close> and adds one to hits, but the entry
  keeps its old \<^verbatim>\<open>LastAccess\<close>: an entry stored at time 0 with a TTL of 10 and read at
  time 5 still carries \<open>LastAccess = 0\<close>, and a read at time 11 misses.
\<close>

theorem Get_hit_keeps_LastAccess:
  "fst (Get (Set (NewCacheManager 1 10 1) ''a'' (7::nat) [] 0 0) ''a'' 5) = (Some 7, True) \<and>
   Hits (Stats (snd (Get (Set (NewCacheManager 1 10 1) ''a'' (7::nat) [] 0 0) ''a'' 5))) = 1 \<and>
   Cache (snd (Get (Set (NewCacheManager 1 10 1) ''a'' (7::nat) [] 0 0) ''a'' 5))
     = [(''a'', \<lparr>Value = 7, TTL = 10, LastAccess = 0\<rparr>)] \<and>
   fst (Get (snd (Get (Set (NewCacheManager 1 10 1) ''a'' (7::nat) [] 0 0) ''a'' 5)) ''a'' 11) = (None, False)"
  by (simp add: ops_defs)

section \<open>Capacity and eviction\<close>

text \<open>
  C2. With capacity 1, two \<^verbatim>\<open>Set\<close> calls on distinct keys during which the clock shows the
  same reading leave two entries in the map: the scan of \<^verbatim>\<open>lru\<close> starts from
  \<^verbatim>\<open>time.Now()\<close> and accepts only strictly older entries, so it finds none.
\<close>

theorem Set_exceeds_capacity:
  "length (Cache (run (NewCacheManager 1 10 1)
      [OpSet ''a'' (1::nat) [] 5 5, OpSet ''b'' 2 [''a''] 5 5])) = 2"
  by (simp add: ops_defs)

text \<open>
  C3. On the same input through \<^verbatim>\<open>SetWithTTL\<close>: inserting the new key \<open>b\<close> into the full
  store calls \<^verbatim>\<open>lru\<close>, which adds one to evictions and removes no entry.
\<close>

theorem lru_counts_without_removing:
  "map fst (Cache (SetWithTTL (SetWithTTL (NewCacheManager 1 10 1) ''a'' (1::nat) 10 [] 5 5)
                     ''b'' 2 10 [''a''] 5 5)) = [''a'', ''b''] \<and>
   Evictions (Stats (SetWithTTL (SetWithTTL (NewCacheManager 1 10 1) ''a'' (1::nat) 10 [] 5 5)
                     ''b'' 2 10 [''a''] 5 5)) = 1"
  by (simp add: ops_defs)

text \<open>
  C4. Capacity 2: \<open>a\<close> stored at time 1, \<open>b\<close> at time 2, \<open>a\<close> read at time 3, \<open>c\<close> stored
  at time 4. In either iteration order the evicted key is \<open>a\<close>, the key that was read.
\<close>

theorem read_key_is_evicted:
  "map fst (Cache (run (NewCacheManager 2 100 1)
      [OpSet ''a'' (1::nat) [] 0 1, OpSet ''b'' 2 [] 0 2, OpGet ''a'' 3,
       OpSet ''c'' 3 [''a'', ''b''] 4 4])) = [''b'', ''c''] \<and>
   map fst (Cache (run (NewCacheManager 2 100 1)
      [OpSet ''a'' (1::nat) [] 0 1, OpSet ''b'' 2 [] 0 2, OpGet ''a'' 3,
       OpSet ''c'' 3 [''b'', ''a''] 4 4])) = [''b'', ''c'']"
  by (simp add: ops_defs)

section \<open>Statistics\<close>

text \<open>
  C6. \<^verbatim>\<open>GetStats\<close> on a store without entries reports \<open>Size = 1\<close>: the field is set to
  the constant 1, not to the entry count.
\<close>

theorem GetStats_size_is_one:
  "Size (fst (GetStats (NewCacheManager 2 10 1 :: nat CacheManager))) = 1 \<and>
   length (Cache (snd (GetStats (NewCacheManager 2 10 1 :: nat CacheManager)))) = 0"
  by (simp add: ops_defs)

section \<open>ClearByTTL\<close>

lemma wf_cache_delete: "wf_cache c \<Longrightarrow> wf_cache (AList.delete k c)"
  by (simp add: wf_cache_def distinct_delete)

lemma wf_cache_update: "wf_cache c \<Longrightarrow> wf_cache (AList.update k v c)"
  by (simp add: wf_cache_def distinct_update)

lemma length_delete_present:
  "distinct (map fst c) \<Longrightarrow> map_of c k = Some v \<Longrightarrow> Suc (length (AList.delete k c)) = length c"
proof (induction c)
  case Nil
  then show ?case by simp
next
  case (Cons p c)
  show ?case
  proof (cases "fst p = k")
    case True
    with Cons.prems have "k \<notin> fst ` set c" by auto
    then have "AList.delete k c = c" by (rule delete_id)
    with True show ?thesis by simp
  next
    case False
    with Cons show ?thesis by auto
  qed
qed


lemma notin_keys: "map_of c k = None \<Longrightarrow> p \<in> set c \<Longrightarrow> fst p \<noteq> k"
  by (metis map_of_eq_None_iff image_eqI)

lemma wf_cache_value:
  "wf_cache c \<Longrightarrow> map_of c k = Some v \<Longrightarrow> p \<in> set c \<Longrightarrow> fst p = k \<Longrightarrow> snd p = v"
  by (cases p) (auto simp: wf_cache_def dest: eq_key_imp_eq_value)

lemma ClearByTTL_loop_cache:
  "wf_cache (Cache cm) \<Longrightarrow>
   Cache (ClearByTTL_loop cm ks now) =
     filter (\<lambda>p. \<not> (fst p \<in> set ks \<and> expired now (snd p))) (Cache cm)"
proof (induction ks arbitrary: cm)
  case Nil
  then show ?case by simp
next
  case (Cons k ks)
  let ?c = "Cache cm"
  let ?P = "\<lambda>p. \<not> (fst p \<in> set ks \<and> expired now (snd p))"
  let ?Q = "\<lambda>p. \<not> (fst p \<in> set (k # ks) \<and> expired now (snd p))"
  have IH: "Cache (ClearByTTL_loop cm ks now) = filter ?P ?c"
    by (rule Cons.IH [OF Cons.prems])
  show ?case
  proof (cases "map_of ?c k")
    case None
    have "\<And>p. p \<in> set ?c \<Longrightarrow> ?P p = ?Q p"
      using notin_keys [OF None] by simp
    then have "filter ?P ?c = filter ?Q ?c"
      by (rule filter_cong [OF refl])
    moreover have "ClearByTTL_loop cm (k # ks) now = ClearByTTL_loop cm ks now"
      using None by simp
    ultimately show ?thesis using IH by simp
  next
    case (Some v)
    show ?thesis
    proof (cases "expired now v")
      case False
      have "\<And>p. p \<in> set ?c \<Longrightarrow> ?P p = ?Q p"
        using wf_cache_value [OF Cons.prems Some] False by auto
      then have "filter ?P ?c = filter ?Q ?c"
        by (rule filter_cong [OF refl])
      moreover have "ClearByTTL_loop cm (k # ks) now = ClearByTTL_loop cm ks now"
        using Some False by (simp add: expired_def)
      ultimately show ?thesis using IH by simp
    next
      case True
      let ?cm1 = "Delete (cm\<lparr>Stats := (Stats cm)\<lparr>Evictions := atomic_AddInt64 (Evictions (Stats cm)) 1\<rparr>\<rparr>) k"
      have c1: "Cache ?cm1 = AList.delete k ?c"
        using Some by (simp add: Delete_def)
      have wf1: "wf_cache (Cache ?cm1)"
        using Cons.prems by (simp add: c1 wf_cache_delete)
      have step: "ClearByTTL_loop cm (k # ks) now = ClearByTTL_loop ?cm1 ks now"
        using Some True by (simp add: expired_def)
      have "Cache (ClearByTTL_loop ?cm1 ks now) = filter ?P (AList.delete k ?c)"
        using Cons.IH [OF wf1] by (simp only: c1)
      also have "\<dots> = filter (\<lambda>p. k \<noteq> fst p \<and> ?P p) ?c"
        by (simp add: AList.delete_eq case_prod_unfold)
      also have "\<dots> = filter ?Q ?c"
      proof (rule filter_cong [OF refl])
        fix p assume "p \<in> set ?c"
        then show "(k \<noteq> fst p \<and> ?P p) = ?Q p"
          using wf_cache_value [OF Cons.prems Some, of p] True by auto
      qed
      finally show ?thesis by (simp only: step)
    qed
  qed
qed

lemma ClearByTTL_loop_stats:
  "wf_cache (Cache cm) \<Longrightarrow>
   Evictions (Stats (ClearByTTL_loop cm ks now)) + of_nat (length (Cache (ClearByTTL_loop cm ks now)))
     = Evictions (Stats cm) + of_nat (length (Cache cm)) \<and>
   Hits (Stats (ClearByTTL_loop cm ks now)) = Hits (Stats cm) \<and>
   Misses (Stats (ClearByTTL_loop cm ks now)) = Misses (Stats cm)"
proof (induction ks arbitrary: cm)
  case Nil
  then show ?case by simp
next
  case (Cons k ks)
  let ?c = "Cache cm"
  show ?case
  proof (cases "map_of ?c k")
    case None
    then have "ClearByTTL_loop cm (k # ks) now = ClearByTTL_loop cm ks now" by simp
    then show ?thesis using Cons.IH [OF Cons.prems] by simp
  next
    case (Some v)
    show ?thesis
    proof (cases "TTL v < time_Sub now (LastAccess v)")
      case False
      with Some have "ClearByTTL_loop cm (k # ks) now = ClearByTTL_loop cm ks now" by simp
      then show ?thesis using Cons.IH [OF Cons.prems] by simp
    next
      case True
      let ?cm1 = "Delete (cm\<lparr>Stats := (Stats cm)\<lparr>Evictions := atomic_AddInt64 (Evictions (Stats cm)) 1\<rparr>\<rparr>) k"
      have c1: "Cache ?cm1 = AList.delete k ?c"
        using Some by (simp add: Delete_def)
      have s1: "Stats ?cm1 = (Stats cm)\<lparr>Evictions := Evictions (Stats cm) + 1\<rparr>"
        using Some by (simp add: Delete_def atomic_AddInt64_def)
      have wf1: "wf_cache (Cache ?cm1)"
        using Cons.prems by (simp add: c1 wf_cache_delete)
      have len: "Suc (length (AList.delete k ?c)) = length ?c"
        using Cons.prems Some by (simp add: wf_cache_def length_delete_present)
      have step: "ClearByTTL_loop cm (k # ks) now = ClearByTTL_loop ?cm1 ks now"
        using Some True by simp
      have w: "(of_nat (length ?c) :: 64 word) = 1 + of_nat (length (AList.delete k ?c))"
        by (simp only: len [symmetric] of_nat_Suc)
      have "Evictions (Stats (ClearByTTL_loop ?cm1 ks now))
              + of_nat (length (Cache (ClearByTTL_loop ?cm1 ks now)))
            = (Evictions (Stats cm) + 1) + of_nat (length (AList.delete k ?c))"
        using Cons.IH [OF wf1] by (simp only: c1 s1) simp
      also have "\<dots> = Evictions (Stats cm) + of_nat (length ?c)"
        by (simp only: w add.assoc)
      finally have e: "Evictions (Stats (ClearByTTL_loop ?cm1 ks now))
              + of_nat (length (Cache (ClearByTTL_loop ?cm1 ks now)))
            = Evictions (Stats cm) + of_nat (length ?c)" .
      have h: "Hits (Stats (ClearByTTL_loop ?cm1 ks now)) = Hits (Stats cm)"
        and m: "Misses (Stats (ClearByTTL_loop ?cm1 ks now)) = Misses (Stats cm)"
        using Cons.IH [OF wf1] by (simp_all add: s1)
      show ?thesis by (simp only: step e h m)
    qed
  qed
qed

text \<open>
  C7. \<^verbatim>\<open>ClearByTTL\<close> removes exactly the entries whose age \<open>now - lastAccess\<close> (as
  \<^verbatim>\<open>now.Sub\<close> computes it) is strictly greater than their TTL, adds one to evictions for
  each removed entry, and leaves the other entries, hits and misses as they were, in
  whatever order the loop visits the keys.
\<close>

theorem ClearByTTL_removes_expired:
  assumes "wf_cache (Cache cm)" and "range_order ord (Cache cm)"
  shows "Cache (ClearByTTL cm ord now) = filter (\<lambda>(k, v). \<not> expired now v) (Cache cm) \<and>
         Evictions (Stats (ClearByTTL cm ord now)) =
           Evictions (Stats cm) + of_nat (length (filter (\<lambda>(k, v). expired now v) (Cache cm))) \<and>
         Hits (Stats (ClearByTTL cm ord now)) = Hits (Stats cm) \<and>
         Misses (Stats (ClearByTTL cm ord now)) = Misses (Stats cm)"
proof -
  let ?c = "Cache cm" and ?cm' = "ClearByTTL_loop cm ord now"
  let ?E = "\<lambda>p. expired now (snd p)"
  have keys: "\<And>p. p \<in> set ?c \<Longrightarrow> fst p \<in> set ord"
    using assms(2) by (simp add: range_order_def)
  have "Cache ?cm' = filter (\<lambda>p. \<not> (fst p \<in> set ord \<and> ?E p)) ?c"
    by (rule ClearByTTL_loop_cache [OF assms(1)])
  also have "\<dots> = filter (\<lambda>p. \<not> ?E p) ?c"
    by (rule filter_cong [OF refl]) (simp add: keys)
  finally have cache: "Cache ?cm' = filter (\<lambda>p. \<not> ?E p) ?c" .
  have split: "length ?c = length (filter ?E ?c) + length (filter (\<lambda>p. \<not> ?E p) ?c)"
    by (rule sum_length_filter_compl [symmetric])
  have st: "Evictions (Stats ?cm') + of_nat (length (Cache ?cm'))
              = Evictions (Stats cm) + of_nat (length ?c)"
       "Hits (Stats ?cm') = Hits (Stats cm)" "Misses (Stats ?cm') = Misses (Stats cm)"
    using ClearByTTL_loop_stats [OF assms(1), of ord now] by simp_all
  have "Evictions (Stats ?cm') + of_nat (length (filter (\<lambda>p. \<not> ?E p) ?c))
          = Evictions (Stats cm)
            + of_nat (length (filter ?E ?c) + length (filter (\<lambda>p. \<not> ?E p) ?c))"
    using st(1) by (simp only: cache split [symmetric])
  then have ev: "Evictions (Stats ?cm') = Evictions (Stats cm) + of_nat (length (filter ?E ?c))"
    by (simp only: of_nat_add add.assoc [symmetric] add_right_cancel)
  show ?thesis
    using cache ev st(2,3) by (simp add: ClearByTTL_def case_prod_unfold)
qed

text \<open>
  Two entries stored at time 0, \<open>a\<close> with a TTL of 5 and \<open>b\<close> with a TTL of 100: the sweep
  at time 6 removes \<open>a\<close> only.
\<close>

theorem ClearByTTL_removes_expired_witness:
  "map fst (Cache (ClearByTTL
      (SetWithTTL (SetWithTTL (NewCacheManager 2 10 1) ''a'' (7::nat) 5 [] 0 0) ''b'' 8 100 [] 0 0)
      [''b'', ''a''] 6)) = [''b''] \<and>
   Evictions (Stats (ClearByTTL
      (SetWithTTL (SetWithTTL (NewCacheManager 2 10 1) ''a'' (7::nat) 5 [] 0 0) ''b'' 8 100 [] 0 0)
      [''b'', ''a''] 6)) = 1"
proof -
  let ?cm = "SetWithTTL (SetWithTTL (NewCacheManager 2 10 1) ''a'' (7::nat) 5 [] 0 0) ''b'' 8 100 [] 0 0"
  have c: "Cache ?cm = [(''a'', \<lparr>Value = 7, TTL = 5, LastAccess = 0\<rparr>),
                        (''b'', \<lparr>Value = 8, TTL = 100, LastAccess = 0\<rparr>)]"
    by (simp add: SetWithTTL_def NewCacheManager_def)
  have e: "Evictions (Stats ?cm) = 0"
    by (simp add: SetWithTTL_def NewCacheManager_def)
  have wf: "wf_cache (Cache ?cm)"
    by (simp add: c wf_cache_def)
  have ro: "range_order [''b'', ''a''] (Cache ?cm)"
    by (auto simp: c range_order_def)
  show ?thesis
    using ClearByTTL_removes_expired [OF wf ro, of 6]
    by (simp add: c e expired_def time_Sub_def maxDuration_def minDuration_def)
qed

section \<open>Monotone counters\<close>

lemma sint_inc: "sint (x :: 64 word) < max_int64 \<Longrightarrow> sint (x + 1) = sint x + 1"
proof -
  assume a: "sint x < max_int64"
  have lo: "- (2 ^ 63) \<le> sint x" using sint_ge [of x] by simp
  have "sint (x + 1) = signed_take_bit 63 (sint x + 1)"
    by (simp add: sint_word_ariths)
  also have "\<dots> = sint x + 1"
    by (rule signed_take_bit_int_eq_self) (use a lo in \<open>auto simp: max_int64_def\<close>)
  finally show ?thesis .
qed

lemma length_delete_less:
  "map_of c k = Some v \<Longrightarrow> length (AList.delete k c) < length c"
proof -
  assume "map_of c k = Some v"
  then have "(k, v) \<in> set c" by (rule map_of_SomeD)
  then show ?thesis
    unfolding AList.delete_eq by (rule length_filter_less) simp
qed

lemma ClearByTTL_loop_mono:
  "sint (Evictions (Stats cm)) + int (length (Cache cm)) < max_int64 \<Longrightarrow>
   sint (Evictions (Stats cm)) \<le> sint (Evictions (Stats (ClearByTTL_loop cm ks now))) \<and>
   Hits (Stats (ClearByTTL_loop cm ks now)) = Hits (Stats cm) \<and>
   Misses (Stats (ClearByTTL_loop cm ks now)) = Misses (Stats cm)"
proof (induction ks arbitrary: cm)
  case Nil
  then show ?case by simp
next
  case (Cons k ks)
  let ?c = "Cache cm"
  show ?case
  proof (cases "map_of ?c k")
    case None
    then have "ClearByTTL_loop cm (k # ks) now = ClearByTTL_loop cm ks now" by simp
    then show ?thesis using Cons.IH [OF Cons.prems] by simp
  next
    case (Some v)
    show ?thesis
    proof (cases "TTL v < time_Sub now (LastAccess v)")
      case False
      with Some have "ClearByTTL_loop cm (k # ks) now = ClearByTTL_loop cm ks now" by simp
      then show ?thesis using Cons.IH [OF Cons.prems] by simp
    next
      case True
      let ?cm1 = "Delete (cm\<lparr>Stats := (Stats cm)\<lparr>Evictions := atomic_AddInt64 (Evictions (Stats cm)) 1\<rparr>\<rparr>) k"
      have c1: "Cache ?cm1 = AList.delete k ?c"
        using Some by (simp add: Delete_def)
      have s1: "Stats ?cm1 = (Stats cm)\<lparr>Evictions := Evictions (Stats cm) + 1\<rparr>"
        using Some by (simp add: Delete_def atomic_AddInt64_def)
      have step: "ClearByTTL_loop cm (k # ks) now = ClearByTTL_loop ?cm1 ks now"
        using Some True by simp
      have small: "sint (Evictions (Stats cm)) < max_int64"
        using Cons.prems by simp
      have inc: "sint (Evictions (Stats ?cm1)) = sint (Evictions (Stats cm)) + 1"
        by (simp add: s1 sint_inc [OF small])
      have len: "int (length (Cache ?cm1)) + 1 \<le> int (length ?c)"
        using length_delete_less [OF Some] by (simp add: c1)
      have room: "sint (Evictions (Stats ?cm1)) + int (length (Cache ?cm1)) < max_int64"
        using Cons.prems inc len by linarith
      have ih: "sint (Evictions (Stats ?cm1)) \<le> sint (Evictions (Stats (ClearByTTL_loop ?cm1 ks now)))"
        and h: "Hits (Stats (ClearByTTL_loop ?cm1 ks now)) = Hits (Stats cm)"
        and m: "Misses (Stats (ClearByTTL_loop ?cm1 ks now)) = Misses (Stats cm)"
        using Cons.IH [OF room] by (simp_all add: s1)
      have "sint (Evictions (Stats cm)) \<le> sint (Evictions (Stats (ClearByTTL_loop ?cm1 ks now)))"
        using ih inc by linarith
      then show ?thesis by (simp only: step h m)
    qed
  qed
qed

lemma lru_Stats:
  "Stats (lru cm ord now) = (Stats cm)\<lparr>Evictions := Evictions (Stats cm) + 1\<rparr>"
  by (simp add: lru_def atomic_AddInt64_def Let_def)

lemma Set_Stats:
  "Stats (Set cm key val ord now_lru now) = Stats cm \<or>
   Stats (Set cm key val ord now_lru now) = (Stats cm)\<lparr>Evictions := Evictions (Stats cm) + 1\<rparr>"
  by (simp add: Set_def Let_def lru_Stats)

lemma SetWithTTL_Stats:
  "Stats (SetWithTTL cm key val ttl ord now_lru now) = Stats cm \<or>
   Stats (SetWithTTL cm key val ttl ord now_lru now) = (Stats cm)\<lparr>Evictions := Evictions (Stats cm) + 1\<rparr>"
  by (simp add: SetWithTTL_def Let_def lru_Stats)

lemma Get_Stats:
  "Stats (snd (Get cm key now)) = (Stats cm)\<lparr>Misses := Misses (Stats cm) + 1\<rparr> \<or>
   Stats (snd (Get cm key now)) = (Stats cm)\<lparr>Hits := Hits (Stats cm) + 1\<rparr>"
  by (simp add: Get_def atomic_AddInt64_def split: option.split)

lemma step_mono: "headroom cm \<Longrightarrow> counters_le (Stats cm) (Stats (step cm a))"
proof (cases a)
  case (OpSet key val ord now_lru now)
  assume "headroom cm"
  then have "sint (Evictions (Stats cm)) < max_int64" by (simp add: headroom_def)
  then show ?thesis
    using Set_Stats [of cm key val ord now_lru now] OpSet
    by (auto simp: counters_le_def sint_inc)
next
  case (OpSetWithTTL key val ttl ord now_lru now)
  assume "headroom cm"
  then have "sint (Evictions (Stats cm)) < max_int64" by (simp add: headroom_def)
  then show ?thesis
    using SetWithTTL_Stats [of cm key val ttl ord now_lru now] OpSetWithTTL
    by (auto simp: counters_le_def sint_inc)
next
  case (OpGet key now)
  assume "headroom cm"
  then have "sint (Hits (Stats cm)) < max_int64" "sint (Misses (Stats cm)) < max_int64"
    by (simp_all add: headroom_def)
  then show ?thesis
    using Get_Stats [of cm key now] OpGet
    by (auto simp: counters_le_def sint_inc)
next
  case (OpDelete key)
  then show ?thesis by (simp add: counters_le_def Delete_def split: option.split)
next
  case OpClear
  then show ?thesis by (simp add: counters_le_def Clear_def)
next
  case (OpClearByTTL ord now)
  assume "headroom cm"
  then have "sint (Evictions (Stats cm)) + int (length (Cache cm)) < max_int64"
    by (simp add: headroom_def)
  from ClearByTTL_loop_mono [OF this, of ord now] OpClearByTTL
  show ?thesis by (simp add: counters_le_def ClearByTTL_def)
next
  case OpGetStats
  then show ?thesis by (simp add: counters_le_def GetStats_def Let_def)
qed

lemma counters_le_refl: "counters_le s s"
  by (simp add: counters_le_def)

lemma counters_le_trans: "counters_le s t \<Longrightarrow> counters_le t u \<Longrightarrow> counters_le s u"
  by (auto simp: counters_le_def)

lemma counters_nonneg_le: "counters_nonneg s \<Longrightarrow> counters_le s t \<Longrightarrow> counters_nonneg t"
  by (auto simp: counters_nonneg_def counters_le_def)

lemma run_Cons: "run cm (a # as) = run (step cm a) as"
  by (simp add: run_def)

lemma run_append: "run cm (as @ bs) = run (run cm as) bs"
  by (simp add: run_def)

lemma run_mono: "no_overflow cm ops \<Longrightarrow> counters_le (Stats cm) (Stats (run cm ops))"
proof (induction ops arbitrary: cm)
  case Nil
  then show ?case by (simp add: run_def counters_le_refl)
next
  case (Cons a as)
  from Cons.prems have h: "headroom cm" and r: "no_overflow (step cm a) as" by simp_all
  show ?case
    unfolding run_Cons
    by (rule counters_le_trans [OF step_mono [OF h] Cons.IH [OF r]])
qed

lemma no_overflow_append:
  "no_overflow cm (as @ bs) = (no_overflow cm as \<and> no_overflow (run cm as) bs)"
  by (induction as arbitrary: cm) (simp_all add: run_def)

lemma counters_nonneg_New: "counters_nonneg (Stats (NewCacheManager c d t))"
  by (simp add: counters_nonneg_def NewCacheManager_def)

text \<open>
  C9, amended. Starting from a new store, as long as no counter can wrap around
  (\<open>no_overflow\<close>), hits, misses and evictions are non-negative after every sequence of
  operations and none of them is smaller after a longer sequence than after a shorter one.
\<close>

theorem counters_monotone:
  assumes "no_overflow (NewCacheManager c d t) (ops @ ops')"
  shows "counters_nonneg (Stats (run (NewCacheManager c d t) ops)) \<and>
         counters_le (Stats (run (NewCacheManager c d t) ops))
                     (Stats (run (NewCacheManager c d t) (ops @ ops')))"
proof -
  let ?new = "NewCacheManager c d t :: 'a CacheManager"
  from assms have a: "no_overflow ?new ops" and b: "no_overflow (run ?new ops) ops'"
    by (simp_all add: no_overflow_append)
  have "counters_nonneg (Stats (run ?new ops))"
    by (rule counters_nonneg_le [OF counters_nonneg_New run_mono [OF a]])
  moreover have "counters_le (Stats (run ?new ops)) (Stats (run ?new (ops @ ops')))"
    unfolding run_append by (rule run_mono [OF b])
  ultimately show ?thesis ..
qed

text \<open>
  A store of capacity 1: a \<^verbatim>\<open>Set\<close> and a hit, then a miss, a sweep that removes the entry
  and a statistics read.
\<close>

theorem counters_monotone_witness:
  "counters_nonneg (Stats (run (NewCacheManager 1 10 1)
      [OpSet ''a'' (7::nat) [] 0 0, OpGet ''a'' 1])) \<and>
   counters_le
     (Stats (run (NewCacheManager 1 10 1) [OpSet ''a'' (7::nat) [] 0 0, OpGet ''a'' 1]))
     (Stats (run (NewCacheManager 1 10 1)
        ([OpSet ''a'' (7::nat) [] 0 0, OpGet ''a'' 1] @
         [OpGet ''b'' 2, OpClearByTTL [''a''] 20, OpGetStats])))"
proof -
  have h: "no_overflow (NewCacheManager 1 10 1)
      ([OpSet ''a'' (7::nat) [] 0 0, OpGet ''a'' 1] @
       [OpGet ''b'' 2, OpClearByTTL [''a''] 20, OpGetStats])"
    by (simp add: headroom_def max_int64_def ops_defs)
  show ?thesis
    by (rule counters_monotone [OF h])
qed

lemma run_Get_hits:
  "map_of (Cache cm) k = Some v \<Longrightarrow> \<not> TTL v < time_Since now (LastAccess v) \<Longrightarrow>
   run cm (replicate n (OpGet k now)) = cm\<lparr>Stats := (Stats cm)\<lparr>Hits := Hits (Stats cm) + of_nat n\<rparr>\<rparr>"
proof (induction n arbitrary: cm)
  case 0
  then show ?case by (simp add: run_def)
next
  case (Suc n)
  let ?cm1 = "cm\<lparr>Stats := (Stats cm)\<lparr>Hits := Hits (Stats cm) + 1\<rparr>\<rparr>"
  have s: "snd (Get cm k now) = ?cm1"
    using Suc.prems by (simp add: Get_def atomic_AddInt64_def)
  have "map_of (Cache ?cm1) k = Some v" using Suc.prems by simp
  from Suc.IH [OF this Suc.prems(2)] show ?case
    by (simp add: run_Cons s add.assoc)
qed

text \<open>
  C9 as stated, for every sequence of operations, fails: the counters are \<^verbatim>\<open>int64\<close>, and
  after one \<^verbatim>\<open>Set\<close> and \<open>2 ^ 63\<close> successful reads the hit counter is negative.
\<close>

theorem Hits_wraps_negative:
  "sint (Hits (Stats (run (NewCacheManager 1 10 1)
      (OpSet ''k'' (0::nat) [] 0 0 # replicate (2 ^ 63) (OpGet ''k'' 0))))) < 0"
proof -
  let ?cm = "Set (NewCacheManager 1 10 1) ''k'' (0::nat) [] 0 0"
  have c: "map_of (Cache ?cm) ''k'' = Some \<lparr>Value = 0, TTL = 10, LastAccess = 0\<rparr>"
    by (simp add: Set_def NewCacheManager_def)
  have f: "\<not> TTL \<lparr>Value = 0::nat, TTL = 10, LastAccess = 0\<rparr>
             < time_Since 0 (LastAccess \<lparr>Value = 0::nat, TTL = 10, LastAccess = 0\<rparr>)"
    by (simp add: time_Since_def time_Sub_def maxDuration_def minDuration_def)
  have h: "Hits (Stats ?cm) = 0"
    by (simp add: Set_def NewCacheManager_def)
  show ?thesis
    unfolding run_Cons step.simps run_Get_hits [OF c f]
    by (simp add: h)
qed

section \<open>Eviction when the clock has advanced\<close>

lemma length_update:
  "length (AList.update k v c) = (if k \<in> fst ` set c then length c else Suc (length c))"
proof -
  have "length (AList.update k v c) = length (map fst (AList.update k v c))" by simp
  also have "\<dots> = (if k \<in> fst ` set c then length c else Suc (length c))"
    by (simp only: update_keys) simp
  finally show ?thesis .
qed

lemma time_Compare_less: "(time_Compare t u = - 1) = (t < u)"
  by (auto simp: time_Compare_def)

lemma lru_scan_result:
  "lru_scan c ks (t0, k0) = (t, k) \<Longrightarrow>
   (t = t0 \<and> k = k0 \<or> t < t0 \<and> k \<in> set ks \<and> (\<exists>v. map_of c k = Some v \<and> LastAccess v = t)) \<and>
   (\<forall>k' \<in> set ks. \<forall>v. map_of c k' = Some v \<longrightarrow> t \<le> LastAccess v) \<and> t \<le> t0"
proof (induction ks arbitrary: t0 k0)
  case Nil
  then show ?case by simp
next
  case (Cons a ks)
  show ?case
  proof (cases "map_of c a")
    case None
    with Cons.prems have "lru_scan c ks (t0, k0) = (t, k)" by simp
    from Cons.IH [OF this] None show ?thesis by auto
  next
    case (Some v)
    show ?thesis
    proof (cases "LastAccess v < t0")
      case True
      with Some Cons.prems have "lru_scan c ks (LastAccess v, a) = (t, k)"
        by (simp add: time_Compare_less)
      from Cons.IH [OF this] Some True show ?thesis by auto
    next
      case False
      with Some Cons.prems have "lru_scan c ks (t0, k0) = (t, k)"
        by (simp add: time_Compare_less)
      from Cons.IH [OF this] Some False show ?thesis by auto
    qed
  qed
qed

text \<open>
  When some entry is strictly older than the clock reading at which \<^verbatim>\<open>lru\<close> starts its
  scan, \<^verbatim>\<open>lru\<close> removes exactly one entry, and no entry has a smaller \<^verbatim>\<open>LastAccess\<close>.
\<close>

lemma lru_removes_oldest:
  assumes wf: "wf_cache (Cache cm)" and ro: "range_order ord (Cache cm)"
    and ex: "(k0, v0) \<in> set (Cache cm)" "LastAccess v0 < now"
  shows "\<exists>k v. map_of (Cache cm) k = Some v \<and>
           (\<forall>p \<in> set (Cache cm). LastAccess v \<le> LastAccess (snd p)) \<and>
           Cache (lru cm ord now) = AList.delete k (Cache cm) \<and>
           Suc (length (Cache (lru cm ord now))) = length (Cache cm) \<and>
           Evictions (Stats (lru cm ord now)) = Evictions (Stats cm) + 1"
proof -
  let ?c = "Cache cm"
  obtain t k where r: "lru_scan ?c ord (now, '''') = (t, k)" by (cases "lru_scan ?c ord (now, '''')")
  note res = lru_scan_result [OF r]
  have keys: "set ord = fst ` set ?c" using ro by (simp add: range_order_def)
  have m0: "map_of ?c k0 = Some v0"
    using wf ex(1) by (simp add: wf_cache_def)
  have "k0 \<in> set ord" using ex(1) keys by force
  with res m0 have "t \<le> LastAccess v0" by blast
  with ex(2) have "t \<noteq> now" by simp
  with res obtain v where v: "map_of ?c k = Some v" "LastAccess v = t" by blast
  have min: "\<forall>p \<in> set ?c. LastAccess v \<le> LastAccess (snd p)"
  proof
    fix p assume p: "p \<in> set ?c"
    then have "fst p \<in> set ord" using keys by simp
    moreover have "map_of ?c (fst p) = Some (snd p)"
      using wf p by (simp add: wf_cache_def)
    ultimately show "LastAccess v \<le> LastAccess (snd p)" using res v(2) by auto
  qed
  have c': "Cache (lru cm ord now) = AList.delete k ?c"
    by (simp add: lru_def r)
  have len: "Suc (length (Cache (lru cm ord now))) = length ?c"
    using wf v(1) by (simp add: c' wf_cache_def length_delete_present)
  have "Evictions (Stats (lru cm ord now)) = Evictions (Stats cm) + 1"
    by (simp add: lru_Stats)
  with v(1) min c' len show ?thesis by blast
qed

lemma lru_Capacity: "Capacity (lru cm ord now) = Capacity cm"
  by (simp add: lru_def Let_def)

lemma lru_wf: "wf_cache (Cache cm) \<Longrightarrow> wf_cache (Cache (lru cm ord now))"
  by (simp add: lru_def Let_def wf_cache_delete)

lemma insert_within_capacity:
  assumes wf: "wf_cache (Cache cm)" and ro: "range_order ord (Cache cm)"
    and cap: "0 < Capacity cm" "int (length (Cache cm)) \<le> Capacity cm"
    and old: "older (Cache cm) now_lru"
    and cm1: "cm1 = (if \<not> map_of (Cache cm) key \<noteq> None \<and> int (length (Cache cm)) = Capacity cm
                     then lru cm ord now_lru else cm)"
  shows "int (length (AList.update key e (Cache cm1))) \<le> Capacity cm \<and>
         wf_cache (AList.update key e (Cache cm1)) \<and> Capacity cm1 = Capacity cm"
proof (cases "map_of (Cache cm) key")
  case (Some v)
  then have "cm1 = cm" using cm1 by simp
  moreover have "key \<in> fst ` set (Cache cm)"
    using Some by (metis map_of_eq_None_iff option.distinct(1))
  ultimately show ?thesis using wf cap by (simp add: length_update wf_cache_update)
next
  case None
  then have notin: "key \<notin> fst ` set (Cache cm)" by (simp add: map_of_eq_None_iff)
  show ?thesis
  proof (cases "int (length (Cache cm)) = Capacity cm")
    case False
    then have "cm1 = cm" using cm1 None by simp
    then show ?thesis using wf cap False by (simp add: length_update wf_cache_update notin)
  next
    case True
    then have c1: "cm1 = lru cm ord now_lru" using cm1 None by simp
    from True cap(1) obtain p where p: "p \<in> set (Cache cm)" by (cases "Cache cm") auto
    then have "LastAccess (snd p) < now_lru" using old by (simp add: older_def list_all_iff)
    with p lru_removes_oldest [OF wf ro, of "fst p" "snd p" now_lru]
    have len: "Suc (length (Cache (lru cm ord now_lru))) = length (Cache cm)" by auto
    have "length (AList.update key e (Cache cm1)) \<le> Suc (length (Cache cm1))"
      by (simp add: length_update)
    with len True show ?thesis
      by (simp add: c1 lru_Capacity wf_cache_update lru_wf [OF wf])
  qed
qed

lemma Set_within_capacity:
  assumes "wf_cache (Cache cm)" and "range_order ord (Cache cm)"
    and "0 < Capacity cm" "int (length (Cache cm)) \<le> Capacity cm"
    and "older (Cache cm) now_lru"
  shows "int (length (Cache (Set cm key val ord now_lru now))) \<le> Capacity cm \<and>
         wf_cache (Cache (Set cm key val ord now_lru now)) \<and>
         Capacity (Set cm key val ord now_lru now) = Capacity cm"
  using insert_within_capacity [OF assms refl, of key]
  by (simp add: Set_def Let_def)

lemma SetWithTTL_within_capacity:
  assumes "wf_cache (Cache cm)" and "range_order ord (Cache cm)"
    and "0 < Capacity cm" "int (length (Cache cm)) \<le> Capacity cm"
    and "older (Cache cm) now_lru"
  shows "int (length (Cache (SetWithTTL cm key val ttl ord now_lru now))) \<le> Capacity cm \<and>
         wf_cache (Cache (SetWithTTL cm key val ttl ord now_lru now)) \<and>
         Capacity (SetWithTTL cm key val ttl ord now_lru now) = Capacity cm"
  using insert_within_capacity [OF assms refl, of key]
  by (simp add: SetWithTTL_def Let_def)

lemma ClearByTTL_loop_Capacity: "Capacity (ClearByTTL_loop cm ks now) = Capacity cm"
  by (induction ks arbitrary: cm) (simp_all add: Delete_def split: option.split)

lemma step_within_capacity:
  assumes "wf_cache (Cache cm)" "0 < Capacity cm" "int (length (Cache cm)) \<le> Capacity cm"
    and "op_ok cm a"
  shows "int (length (Cache (step cm a))) \<le> Capacity cm \<and> wf_cache (Cache (step cm a)) \<and>
         Capacity (step cm a) = Capacity cm"
proof (cases a)
  case (OpSet key val ord now_lru now)
  with assms Set_within_capacity [of cm ord now_lru key val now] show ?thesis by simp
next
  case (OpSetWithTTL key val ttl ord now_lru now)
  with assms SetWithTTL_within_capacity [of cm ord now_lru key val ttl now] show ?thesis by simp
next
  case (OpGet key now)
  with assms show ?thesis by (simp add: Get_def split: option.split)
next
  case (OpDelete key)
  have "length (AList.delete key (Cache cm)) \<le> length (Cache cm)" by (rule length_delete_le)
  with OpDelete assms show ?thesis
    by (auto simp: Delete_def wf_cache_delete split: option.split)
next
  case OpClear
  with assms show ?thesis by (simp add: Clear_def wf_cache_def)
next
  case (OpClearByTTL ord now)
  have c: "Cache (ClearByTTL_loop cm ord now) =
           filter (\<lambda>p. \<not> (fst p \<in> set ord \<and> expired now (snd p))) (Cache cm)"
    by (rule ClearByTTL_loop_cache [OF assms(1)])
  have "length (Cache (ClearByTTL_loop cm ord now)) \<le> length (Cache cm)"
    unfolding c by (rule length_filter_le)
  moreover have "wf_cache (Cache (ClearByTTL_loop cm ord now))"
    unfolding c using assms(1) by (simp add: wf_cache_def distinct_map_filter)
  ultimately show ?thesis
    using OpClearByTTL assms by (simp add: ClearByTTL_def ClearByTTL_loop_Capacity)
next
  case OpGetStats
  with assms show ?thesis by (simp add: GetStats_def Let_def)
qed

text \<open>
  With a capacity above 0 and a clock that has moved past every stored \<^verbatim>\<open>LastAccess\<close>
  whenever \<^verbatim>\<open>lru\<close> scans, the store never holds more entries than its capacity.
\<close>

lemma run_within_capacity:
  "wf_cache (Cache cm) \<Longrightarrow> 0 < Capacity cm \<Longrightarrow> int (length (Cache cm)) \<le> Capacity cm \<Longrightarrow>
   strict_run cm ops \<Longrightarrow>
   int (length (Cache (run cm ops))) \<le> Capacity cm"
proof (induction ops arbitrary: cm)
  case Nil
  then show ?case by (simp add: run_def)
next
  case (Cons a as)
  from Cons.prems have ok: "op_ok cm a" and rest: "strict_run (step cm a) as" by simp_all
  note s = step_within_capacity [OF Cons.prems(1,2,3) ok]
  from s Cons.prems(2) have "0 < Capacity (step cm a)"
    and "int (length (Cache (step cm a))) \<le> Capacity (step cm a)" by simp_all
  from Cons.IH [OF _ this rest] s show ?case by (simp add: run_Cons)
qed

text \<open>
  Capacity 1, three keys stored at the readings 1, 3 and 5, each scan one tick before:
  the store holds one entry at the end.
\<close>

lemma run_within_capacity_example:
  "int (length (Cache (run (NewCacheManager 1 10 1)
      [OpSet ''a'' (7::nat) [] 0 1, OpSet ''b'' 8 [''a''] 2 3, OpSet ''c'' 9 [''b''] 4 5]))) \<le> 1 \<and>
   map fst (Cache (run (NewCacheManager 1 10 1)
      [OpSet ''a'' (7::nat) [] 0 1, OpSet ''b'' 8 [''a''] 2 3, OpSet ''c'' 9 [''b''] 4 5])) = [''c'']"
proof -
  let ?new = "NewCacheManager 1 10 1 :: nat CacheManager"
  let ?ops = "[OpSet ''a'' (7::nat) [] 0 1, OpSet ''b'' 8 [''a''] 2 3, OpSet ''c'' 9 [''b''] 4 5]"
  have ok: "strict_run ?new ?ops"
    by (simp add: range_order_def older_def ops_defs)
  have "wf_cache (Cache ?new)" "0 < Capacity ?new" "int (length (Cache ?new)) \<le> Capacity ?new"
    by (simp_all add: wf_cache_def NewCacheManager_def)
  from run_within_capacity [OF this ok]
  have "int (length (Cache (run ?new ?ops))) \<le> 1" by (simp add: NewCacheManager_def)
  moreover have "map fst (Cache (run ?new ?ops)) = [''c'']"
    by (simp add: ops_defs)
  ultimately show ?thesis ..
qed

end
